theory Spec2Isabelle
  imports Complex_Main
begin

section \<open>The stopwatch of script.js\<close>

text \<open>
  The script keeps four module variables (\<open>startTime\<close>, \<open>elapsed\<close>, \<open>running\<close>,
  \<open>laps\<close>), reads the clock through \<open>now()\<close>, and stores a JSON snapshot of the
  variables under one key of \<open>localStorage\<close>.

  Numbers are modelled as real numbers: JavaScript's doubles are idealised, so that
  rounding, \<open>NaN\<close> and the infinities are outside the model. Every call of \<open>now()\<close>
  is an explicit argument of the function that makes it, so two calls may be given
  two different readings. The DOM (rendering, buttons, the animation frame handle
  \<open>rafId\<close>) is not modelled: none of it writes one of the four variables.
\<close>

subsection \<open>Values produced by JSON.parse\<close>

datatype jsval =
    JUndefined
  | JNull
  | JBool bool
  | JNum real
  | JStr string
  | JArr "jsval list"
  | JObj "(string \<times> jsval) list"

datatype js_error = SyntaxError | TypeError

text \<open>Truthiness, as \<open>!x\<close>, \<open>!!x\<close> and \<open>x || y\<close> test it.\<close>

fun truthy :: "jsval \<Rightarrow> bool" where
  "truthy JUndefined = False"
| "truthy JNull = False"
| "truthy (JBool b) = b"
| "truthy (JNum x) = (x \<noteq> 0)"
| "truthy (JStr s) = (s \<noteq> [])"
| "truthy (JArr xs) = True"
| "truthy (JObj kvs) = True"

definition js_or :: "jsval \<Rightarrow> jsval \<Rightarrow> jsval" where
  "js_or a b = (if truthy a then a else b)"

text \<open>
  Property read \<open>s.k\<close>, for a key \<open>k\<close> that no prototype defines (the script reads
  \<open>startTime\<close>, \<open>elapsed\<close>, \<open>running\<close> and \<open>laps\<close> only): a TypeError on \<open>null\<close> and
  \<open>undefined\<close>, the own property of an object, \<open>undefined\<close> everywhere else.
\<close>

fun get_prop :: "jsval \<Rightarrow> string \<Rightarrow> js_error + jsval" where
  "get_prop JUndefined k = Inl TypeError"
| "get_prop JNull k = Inl TypeError"
| "get_prop (JObj kvs) k = Inr (case map_of kvs k of None \<Rightarrow> JUndefined | Some v \<Rightarrow> v)"
| "get_prop v k = Inr JUndefined"

subsection \<open>State\<close>

text \<open>The four variables of the timing engine, holding numbers (lines 12 to 15).\<close>

record state =
  startTime :: real
  elapsed :: real
  running :: bool
  laps :: "real list"

definition initial :: state where
  "initial = \<lparr>startTime = 0, elapsed = 0, running = False, laps = []\<rparr>"

text \<open>
  The same four variables as \<open>loadState\<close> leaves them: \<open>startTime\<close> and \<open>elapsed\<close> hold
  whatever value the stored document had, \<open>running\<close> is a boolean and \<open>laps\<close> an
  array of any values.
\<close>

record jvars =
  jstartTime :: jsval
  jelapsed :: jsval
  jrunning :: bool
  jlaps :: "jsval list"

definition js_vars :: "state \<Rightarrow> jvars" where
  "js_vars s = \<lparr>jstartTime = JNum (startTime s), jelapsed = JNum (elapsed s),
                jrunning = running s, jlaps = map JNum (laps s)\<rparr>"

subsection \<open>Persistence\<close>

definition STORAGE_KEY :: string where
  "STORAGE_KEY = ''interactiveStopwatch_v1''"

text \<open>The object literal \<open>{ startTime, elapsed, running, laps }\<close> of \<open>saveState\<close>.\<close>

definition snapshot :: "jvars \<Rightarrow> jsval" where
  "snapshot v = JObj [(''startTime'', jstartTime v), (''elapsed'', jelapsed v),
                      (''running'', JBool (jrunning v)), (''laps'', JArr (jlaps v))]"

text \<open>
  \<open>JSON.stringify\<close> and \<open>JSON.parse\<close> belong to the platform and are parameters:
  \<open>stringify\<close> gives the text of a value, \<open>parse\<close> gives \<open>None\<close> where
  \<open>JSON.parse\<close> throws a SyntaxError. \<open>localStorage\<close> is a map from keys to texts.
\<close>

definition saveState ::
  "(jsval \<Rightarrow> string) \<Rightarrow> jvars \<Rightarrow> (string \<rightharpoonup> string) \<Rightarrow> (string \<rightharpoonup> string)" where
  "saveState stringify v store = store(STORAGE_KEY \<mapsto> stringify (snapshot v))"

text \<open>The body of the \<open>try\<close> block of \<open>loadState\<close> (lines 33 to 37).\<close>

definition loadState_try :: "(string \<Rightarrow> jsval option) \<Rightarrow> string \<Rightarrow> js_error + jvars" where
  "loadState_try parse raw =
     (case parse raw of
        None \<Rightarrow> Inl SyntaxError
      | Some s \<Rightarrow>
          (case get_prop s ''startTime'' of
             Inl e \<Rightarrow> Inl e
           | Inr st \<Rightarrow>
               (case get_prop s ''elapsed'' of
                  Inl e \<Rightarrow> Inl e
                | Inr el \<Rightarrow>
                    (case get_prop s ''running'' of
                       Inl e \<Rightarrow> Inl e
                     | Inr ru \<Rightarrow>
                         (case get_prop s ''laps'' of
                            Inl e \<Rightarrow> Inl e
                          | Inr la \<Rightarrow>
                              Inr \<lparr>jstartTime = js_or st (JNum 0),
                                   jelapsed = js_or el (JNum 0),
                                   jrunning = truthy ru,
                                   jlaps = (case la of JArr xs \<Rightarrow> xs | _ \<Rightarrow> [])\<rparr>)))))"

text \<open>
  \<open>loadState\<close>: \<open>getItem\<close> gives \<open>null\<close> for a missing key, and \<open>!raw\<close> holds for
  \<open>null\<close> and for the empty text; the \<open>catch\<close> swallows every error of the
  \<open>try\<close> block and leaves the variables as they were. \<open>Inl\<close> would be an error that
  reaches the caller.
\<close>

definition loadState ::
  "(string \<Rightarrow> jsval option) \<Rightarrow> (string \<rightharpoonup> string) \<Rightarrow> jvars \<Rightarrow> js_error + jvars" where
  "loadState parse store v =
     (case store STORAGE_KEY of
        None \<Rightarrow> Inr v
      | Some raw \<Rightarrow>
          if raw = [] then Inr v
          else (case loadState_try parse raw of Inl e \<Rightarrow> Inr v | Inr v' \<Rightarrow> Inr v'))"

subsection \<open>The timing engine\<close>

text \<open>
  Each action takes the reading \<open>t\<close> that its call of \<open>now()\<close> returns. The calls of
  \<open>renderTime\<close>, \<open>renderLaps\<close>, \<open>updateButtons\<close>, \<open>tick\<close> and \<open>saveState\<close> that end
  an action write the page and the storage slot, never the four variables, and are
  left out of the actions.
\<close>

definition currentElapsed :: "real \<Rightarrow> state \<Rightarrow> real" where
  "currentElapsed t s = (if running s then elapsed s + (t - startTime s) else elapsed s)"

definition start :: "real \<Rightarrow> state \<Rightarrow> state" where
  "start t s = (if running s then s else s\<lparr>startTime := t, running := True\<rparr>)"

definition pause :: "real \<Rightarrow> state \<Rightarrow> state" where
  "pause t s =
     (if \<not> running s then s
      else s\<lparr>elapsed := elapsed s + (t - startTime s), running := False\<rparr>)"

definition reset :: "real \<Rightarrow> state \<Rightarrow> state" where
  "reset t s =
     (let s1 = (if running s then pause t s else s)
      in s1\<lparr>elapsed := 0, startTime := 0\<rparr>)"

definition lap :: "real \<Rightarrow> state \<Rightarrow> state" where
  "lap t s =
     (if \<not> running s then s
      else (let cum = currentElapsed t s in s\<lparr>laps := laps s @ [cum]\<rparr>))"

definition clearLaps :: "state \<Rightarrow> state" where
  "clearLaps s = s\<lparr>laps := []\<rparr>"

text \<open>
  The start-up block after \<open>loadState()\<close> (lines 213 to 220). It calls \<open>now()\<close> up
  to three times: \<open>t1\<close> is the reading on the left of the subtraction that gives
  \<open>drift\<close>, \<open>t2\<close> the reading of \<open>startTime || now()\<close>, taken only when \<open>startTime\<close>
  is \<open>0\<close>, and \<open>t3\<close> the reading of \<open>now() - drift\<close>.
\<close>

definition resume :: "real \<Rightarrow> real \<Rightarrow> real \<Rightarrow> state \<Rightarrow> state" where
  "resume t1 t2 t3 s =
     (if running s
      then (let drift = t1 - (if startTime s \<noteq> 0 then startTime s else t2)
            in s\<lparr>startTime := t3 - drift\<rparr>)
      else s)"

text \<open>
  The persisted document of the specification's reload scenario: a stopwatch that was
  running when the page went away.
\<close>

definition stale_example :: state where
  "stale_example = \<lparr>startTime = 1000, elapsed = 5000, running = True, laps = []\<rparr>"

subsection \<open>Sequences of actions\<close>

datatype action = Start | Pause | Reset | Lap | ClearLaps

fun perform :: "action \<Rightarrow> real \<Rightarrow> state \<Rightarrow> state" where
  "perform Start t s = start t s"
| "perform Pause t s = pause t s"
| "perform Reset t s = reset t s"
| "perform Lap t s = lap t s"
| "perform ClearLaps t s = clearLaps s"

text \<open>An event is an action with the clock reading at which it happens.\<close>

fun run :: "state \<Rightarrow> (action \<times> real) list \<Rightarrow> state" where
  "run s [] = s"
| "run s ((a, t) # evs) = run (perform a t s) evs"

text \<open>The readings of a monotonic clock never decrease from one event to the next.\<close>

fun monotonic :: "real list \<Rightarrow> bool" where
  "monotonic [] = True"
| "monotonic [t] = True"
| "monotonic (t # u # ts) = (t \<le> u \<and> monotonic (u # ts))"

text \<open>A list is non-decreasing when no entry is below the entry before it.\<close>

definition nondecreasing :: "real list \<Rightarrow> bool" where
  "nondecreasing xs = (\<forall>i. 1 \<le> i \<and> i < length xs \<longrightarrow> xs ! (i - 1) \<le> xs ! i)"

text \<open>
  A run in which no lap is recorded while the lap list still holds laps from before a
  \<open>reset\<close>. The flag \<open>kept\<close> says that the list holds such laps: a \<open>reset\<close> of a
  non-empty list sets it, \<open>clearLaps\<close> clears it. A call of \<open>lap\<close> on a stopwatch
  that is not running records nothing and is always allowed.
\<close>

fun no_lap_on_kept :: "bool \<Rightarrow> state \<Rightarrow> (action \<times> real) list \<Rightarrow> bool" where
  "no_lap_on_kept kept s [] = True"
| "no_lap_on_kept kept s ((a, t) # evs) =
     ((a = Lap \<and> running s \<longrightarrow> \<not> kept) \<and>
      no_lap_on_kept
        (if a = Reset then laps s \<noteq> [] else if a = ClearLaps then False else kept)
        (perform a t s) evs)"

text \<open>
  The invariant: the laps are sorted, and unless the list holds laps from before a
  \<open>reset\<close>, none exceeds the elapsed time at reading \<open>t\<close>.
\<close>

definition laps_bounded :: "bool \<Rightarrow> real \<Rightarrow> state \<Rightarrow> bool" where
  "laps_bounded kept t s =
     (sorted (laps s) \<and> (\<not> kept \<longrightarrow> (\<forall>x \<in> set (laps s). x \<le> currentElapsed t s)))"

subsection \<open>Best and worst split\<close>

record best_worst =
  best :: int
  worst :: int

text \<open>\<open>list.map((cum, i) => i === 0 ? cum : (cum - list[i-1]))\<close>\<close>

definition splits :: "real list \<Rightarrow> real list" where
  "splits list =
     map (\<lambda>i. if i = 0 then list ! i else list ! i - list ! (i - 1)) [0..<length list]"

text \<open>One round of the \<open>forEach\<close> callback, on the pair of \<open>best\<close> and \<open>worst\<close>.\<close>

definition scan_step :: "real list \<Rightarrow> nat \<Rightarrow> nat \<times> nat \<Rightarrow> nat \<times> nat" where
  "scan_step sp i bw =
     (let b = (if sp ! i < sp ! fst bw then i else fst bw);
          w = (if sp ! i > sp ! snd bw then i else snd bw)
      in (b, w))"

definition scan :: "real list \<Rightarrow> nat \<Rightarrow> nat \<times> nat" where
  "scan sp n = fold (scan_step sp) [0..<n] (0, 0)"

definition bestWorstIndices :: "real list \<Rightarrow> best_worst" where
  "bestWorstIndices list =
     (if length list < 2 then \<lparr>best = - 1, worst = - 1\<rparr>
      else (let sp = splits list; bw = scan sp (length sp)
            in \<lparr>best = int (fst bw), worst = int (snd bw)\<rparr>))"

text \<open>The split of lap \<open>i\<close> in the words of the specification.\<close>

definition split_of :: "real list \<Rightarrow> nat \<Rightarrow> real" where
  "split_of list i = (if i = 0 then list ! 0 else list ! i - list ! (i - 1))"

section \<open>Properties\<close>

subsection \<open>The elapsed time\<close>

text \<open>
  Claim C2. \<open>currentElapsed\<close> returns \<open>elapsed\<close> when the stopwatch is not running
  and \<open>elapsed + (now() - startTime)\<close> when it is. It is a query: it maps the clock
  reading and the variables to a number and has no state to return.
\<close>

theorem currentElapsed_query:
  "(\<not> running s \<longrightarrow> currentElapsed t s = elapsed s) \<and>
   (running s \<longrightarrow> currentElapsed t s = elapsed s + (t - startTime s))"
  by (simp add: currentElapsed_def)

theorem currentElapsed_query_witness:
  "currentElapsed 2700 \<lparr>startTime = 1000, elapsed = 500, running = False, laps = []\<rparr> = 500 \<and>
   currentElapsed 2700 \<lparr>startTime = 1000, elapsed = 500, running = True, laps = []\<rparr> = 2200"
  using currentElapsed_query
          [of "\<lparr>startTime = 1000, elapsed = 500, running = False, laps = []\<rparr>" 2700]
        currentElapsed_query
          [of "\<lparr>startTime = 1000, elapsed = 500, running = True, laps = []\<rparr>" 2700]
  by simp

subsection \<open>The actions\<close>

text \<open>
  Claim C3. On a running stopwatch \<open>pause\<close> adds \<open>now() - startTime\<close> to \<open>elapsed\<close>
  and clears \<open>running\<close>; from then on \<open>currentElapsed\<close> is \<open>elapsed\<close> at every
  clock reading, so it no longer advances.
\<close>

theorem pause_folds_and_freezes:
  "running s \<Longrightarrow>
     elapsed (pause t s) = elapsed s + (t - startTime s) \<and>
     \<not> running (pause t s) \<and>
     (\<forall>t'. currentElapsed t' (pause t s) = elapsed (pause t s))"
  by (simp add: pause_def currentElapsed_def)

theorem pause_folds_and_freezes_witness:
  "running \<lparr>startTime = 0, elapsed = 0, running = True, laps = [1500, 2700]\<rparr> \<and>
   elapsed (pause 3000 \<lparr>startTime = 0, elapsed = 0, running = True, laps = [1500, 2700]\<rparr>) = 3000 \<and>
   \<not> running (pause 3000 \<lparr>startTime = 0, elapsed = 0, running = True, laps = [1500, 2700]\<rparr>) \<and>
   currentElapsed 7000 (pause 3000 \<lparr>startTime = 0, elapsed = 0, running = True, laps = [1500, 2700]\<rparr>) = 3000"
  using pause_folds_and_freezes
          [of "\<lparr>startTime = 0, elapsed = 0, running = True, laps = [1500, 2700]\<rparr>" 3000]
  by simp



text \<open>
  Claim C6. \<open>lap\<close> on a stopwatch that is not running, \<open>start\<close> on a running one
  and \<open>pause\<close> on one that is not running return the variables as they were; the
  early \<open>return\<close> raises nothing.
\<close>

theorem noop_when_not_applicable:
  "(\<not> running s \<longrightarrow> lap t s = s) \<and>
   (running s \<longrightarrow> start t s = s) \<and>
   (\<not> running s \<longrightarrow> pause t s = s)"
  by (simp add: lap_def start_def pause_def)

theorem noop_when_not_applicable_witness:
  "lap 40 \<lparr>startTime = 10, elapsed = 20, running = False, laps = [5]\<rparr> =
     \<lparr>startTime = 10, elapsed = 20, running = False, laps = [5]\<rparr> \<and>
   start 40 \<lparr>startTime = 10, elapsed = 20, running = True, laps = [5]\<rparr> =
     \<lparr>startTime = 10, elapsed = 20, running = True, laps = [5]\<rparr> \<and>
   pause 40 \<lparr>startTime = 10, elapsed = 20, running = False, laps = [5]\<rparr> =
     \<lparr>startTime = 10, elapsed = 20, running = False, laps = [5]\<rparr>"
  using noop_when_not_applicable
          [of "\<lparr>startTime = 10, elapsed = 20, running = False, laps = [5]\<rparr>" 40]
        noop_when_not_applicable
          [of "\<lparr>startTime = 10, elapsed = 20, running = True, laps = [5]\<rparr>" 40]
  by simp

subsection \<open>Resuming after a reload\<close>

text \<open>
  Claim C1. A loaded running state is to get \<open>startTime = now()\<close> with \<open>elapsed\<close>
  unchanged, so that \<open>currentElapsed\<close> right after the load is the persisted
  \<open>elapsed\<close>. The start-up block does not do that: its comments announce an
  adjustment of \<open>startTime\<close> that keeps the elapsed time continuous, but its two
  assignments cancel. In the specification's scenario (persisted \<open>startTime = 1000\<close>,
  \<open>elapsed = 5000\<close>, clock at \<open>0\<close>) it leaves \<open>startTime = 1000\<close>, and
  \<open>currentElapsed\<close> is \<open>4000\<close>, below the persisted \<open>elapsed\<close>.
\<close>

theorem resume_stale_start:
  "running stale_example \<and>
   elapsed stale_example = 5000 \<and>
   startTime (resume 0 0 0 stale_example) = 1000 \<and>
   startTime (resume 0 0 0 stale_example) \<noteq> 0 \<and>
   elapsed (resume 0 0 0 stale_example) = 5000 \<and>
   currentElapsed 0 (resume 0 0 0 stale_example) = 4000 \<and>
   currentElapsed 0 (resume 0 0 0 stale_example) \<noteq> elapsed stale_example"
  by (simp add: stale_example_def resume_def currentElapsed_def)

text \<open>
  Claim C10. For a loaded running state with \<open>startTime \<noteq> 0\<close>, the two assignments
  \<open>drift = now() - startTime; startTime = now() - drift\<close> move \<open>startTime\<close> by the
  difference \<open>t3 - t1\<close> of the two readings: with one reading \<open>t\<close> for both calls the
  state is unchanged, and \<open>currentElapsed\<close> at a later reading \<open>t'\<close> is
  \<open>elapsed + (t' - startTime)\<close> with the persisted \<open>startTime\<close>. A persisted
  \<open>startTime\<close> of \<open>0\<close> is replaced by the reading.
\<close>

theorem resume_keeps_nonzero_start:
  "running s \<Longrightarrow>
     (startTime s \<noteq> 0 \<longrightarrow>
        startTime (resume t1 t2 t3 s) = startTime s + (t3 - t1) \<and>
        resume t t2 t s = s \<and>
        currentElapsed t' (resume t t2 t s) = elapsed s + (t' - startTime s)) \<and>
     (startTime s = 0 \<longrightarrow> startTime (resume t t t s) = t)"
  by (simp add: resume_def currentElapsed_def Let_def)

theorem resume_keeps_nonzero_start_witness:
  "running stale_example \<and> startTime stale_example \<noteq> 0 \<and>
   startTime (resume 3 4 5 stale_example) = 1002 \<and>
   resume 3 4 3 stale_example = stale_example \<and>
   currentElapsed 1200 (resume 3 4 3 stale_example) = 5200 \<and>
   startTime (resume 3 3 3 \<lparr>startTime = 0, elapsed = 5000, running = True, laps = []\<rparr>) = 3"
proof -
  let ?z = "\<lparr>startTime = 0, elapsed = 5000, running = True, laps = []\<rparr>"
  have r: "running stale_example" and n: "startTime stale_example \<noteq> 0"
    and v: "startTime stale_example + (5 - 3) = 1002"
           "elapsed stale_example + (1200 - startTime stale_example) = 5200"
    by (simp_all add: stale_example_def)
  have rz: "running ?z" and z: "startTime ?z = 0"
    by simp_all
  from resume_keeps_nonzero_start [of stale_example 3 4 5 3 1200]
       resume_keeps_nonzero_start [of ?z 3 3 3 3 3] r n v rz z
  show ?thesis
    by metis
qed

subsection \<open>The lap list\<close>

lemma monotonic_sorted: "monotonic ts = sorted ts"
  by (induction ts rule: monotonic.induct) fastforce+

lemma nondecreasing_sorted: "nondecreasing xs = sorted xs"
  unfolding nondecreasing_def
proof
  assume a: "\<forall>i. 1 \<le> i \<and> i < length xs \<longrightarrow> xs ! (i - 1) \<le> xs ! i"
  show "sorted xs"
  proof (rule iffD2 [OF sorted_iff_nth_Suc], intro allI impI)
    fix i assume "Suc i < length xs"
    with a [rule_format, of "Suc i"] show "xs ! i \<le> xs ! Suc i" by simp
  qed
next
  assume s: "sorted xs"
  show "\<forall>i. 1 \<le> i \<and> i < length xs \<longrightarrow> xs ! (i - 1) \<le> xs ! i"
    using s by (auto simp: sorted_iff_nth_mono)
qed

lemma currentElapsed_mono: "t \<le> u \<Longrightarrow> currentElapsed t s \<le> currentElapsed u s"
  by (simp add: currentElapsed_def)

lemma laps_bounded_later: "laps_bounded kept t s \<Longrightarrow> t \<le> u \<Longrightarrow> laps_bounded kept u s"
  unfolding laps_bounded_def using currentElapsed_mono [of t u s] by fastforce

lemma laps_bounded_perform:
  assumes "laps_bounded kept u s" and "a = Lap \<and> running s \<longrightarrow> \<not> kept"
  shows "laps_bounded
           (if a = Reset then laps s \<noteq> [] else if a = ClearLaps then False else kept)
           u (perform a u s)"
proof (cases a)
  case Start
  with assms show ?thesis by (auto simp: laps_bounded_def start_def currentElapsed_def)
next
  case Pause
  with assms show ?thesis by (auto simp: laps_bounded_def pause_def currentElapsed_def)
next
  case Reset
  with assms show ?thesis
    by (auto simp: laps_bounded_def reset_def pause_def currentElapsed_def Let_def)
next
  case Lap
  show ?thesis
  proof (cases "running s")
    case True
    with Lap assms(2) have "\<not> kept" by simp
    with Lap True assms(1) show ?thesis
      by (auto simp: laps_bounded_def lap_def currentElapsed_def Let_def sorted_append)
  next
    case False
    with Lap assms(1) show ?thesis by (simp add: lap_def)
  qed
next
  case ClearLaps
  with assms show ?thesis by (auto simp: laps_bounded_def clearLaps_def)
qed

lemma laps_bounded_run:
  "laps_bounded kept t s \<Longrightarrow> sorted (t # map snd evs) \<Longrightarrow> no_lap_on_kept kept s evs \<Longrightarrow>
     sorted (laps (run s evs))"
proof (induction evs arbitrary: kept s t)
  case Nil
  then show ?case by (simp add: laps_bounded_def)
next
  case (Cons e evs)
  obtain a u where e: "e = (a, u)" by (cases e)
  let ?kept = "if a = Reset then laps s \<noteq> [] else if a = ClearLaps then False else kept"
  from Cons.prems e have tu: "t \<le> u" by simp
  from Cons.prems(1) tu have "laps_bounded kept u s" by (rule laps_bounded_later)
  moreover from Cons.prems(3) e have "a = Lap \<and> running s \<longrightarrow> \<not> kept" by simp
  ultimately have "laps_bounded ?kept u (perform a u s)" by (rule laps_bounded_perform)
  moreover from Cons.prems(2) e have "sorted (u # map snd evs)" by simp
  moreover from Cons.prems(3) e have "no_lap_on_kept ?kept (perform a u s) evs" by simp
  ultimately have "sorted (laps (run (perform a u s) evs))" by (rule Cons.IH)
  with e show ?case by simp
qed

text \<open>
  Claim C5 says that the lap list is non-decreasing in every reachable state. \<open>reset\<close>
  zeroes \<open>elapsed\<close> and keeps the laps, so a lap taken after a reset is below the laps
  taken before it: start at \<open>0\<close>, lap at \<open>10\<close>, reset, start at \<open>20\<close>, lap at \<open>25\<close>
  gives the laps \<open>[10, 5]\<close>.
\<close>

theorem laps_decrease_counterexample:
  "monotonic (map snd [(Start, 0), (Lap, 10), (Reset, 10), (Start, 20), (Lap, 25)]) \<and>
   laps (run initial [(Start, 0), (Lap, 10), (Reset, 10), (Start, 20), (Lap, 25)]) = [10, 5] \<and>
   \<not> nondecreasing (laps (run initial [(Start, 0), (Lap, 10), (Reset, 10), (Start, 20), (Lap, 25)]))"
proof -
  have l: "laps (run initial [(Start, 0), (Lap, 10), (Reset, 10), (Start, 20), (Lap, 25)]) = [10, 5]"
    by (simp add: initial_def start_def lap_def reset_def pause_def currentElapsed_def Let_def)
  have "\<not> nondecreasing [10, 5]"
    by (simp add: nondecreasing_sorted)
  with l show ?thesis by simp
qed

text \<open>
  Claim C5, amended. From the initial state, under a monotonic clock, every sequence of
  \<open>start\<close>, \<open>pause\<close>, \<open>reset\<close>, \<open>lap\<close> and \<open>clearLaps\<close> in which no lap is recorded
  between a \<open>reset\<close> that keeps a non-empty lap list and the next \<open>clearLaps\<close> leaves
  the lap list non-decreasing.
\<close>

theorem laps_nondecreasing:
  assumes "monotonic (map snd evs)" and "no_lap_on_kept False initial evs"
  shows "nondecreasing (laps (run initial evs))"
proof (cases evs)
  case Nil
  then show ?thesis by (simp add: nondecreasing_sorted initial_def)
next
  case (Cons e es)
  have "laps_bounded False (snd e) initial" by (simp add: laps_bounded_def initial_def)
  moreover from assms(1) Cons have "sorted (snd e # map snd evs)"
    by (simp add: monotonic_sorted)
  ultimately have "sorted (laps (run initial evs))"
    using assms(2) by (rule laps_bounded_run)
  then show ?thesis by (simp add: nondecreasing_sorted)
qed

theorem laps_nondecreasing_witness:
  "monotonic (map snd [(Start, 0), (Lap, 1500), (Lap, 2700), (Pause, 3000), (Reset, 3000)]) \<and>
   no_lap_on_kept False initial
     [(Start, 0), (Lap, 1500), (Lap, 2700), (Pause, 3000), (Reset, 3000)] \<and>
   laps (run initial [(Start, 0), (Lap, 1500), (Lap, 2700), (Pause, 3000), (Reset, 3000)]) =
     [1500, 2700] \<and>
   nondecreasing
     (laps (run initial [(Start, 0), (Lap, 1500), (Lap, 2700), (Pause, 3000), (Reset, 3000)])) \<and>
   monotonic (map snd [(Start, 0), (Lap, 1500), (Lap, 2700), (Pause, 3000), (Reset, 3000),
                       (Lap, 3100), (ClearLaps, 3200), (Start, 4000), (Lap, 4200),
                       (Lap, 4500), (Lap, 5100)]) \<and>
   no_lap_on_kept False initial
     [(Start, 0), (Lap, 1500), (Lap, 2700), (Pause, 3000), (Reset, 3000),
      (Lap, 3100), (ClearLaps, 3200), (Start, 4000), (Lap, 4200), (Lap, 4500), (Lap, 5100)] \<and>
   laps (run initial
     [(Start, 0), (Lap, 1500), (Lap, 2700), (Pause, 3000), (Reset, 3000),
      (Lap, 3100), (ClearLaps, 3200), (Start, 4000), (Lap, 4200), (Lap, 4500), (Lap, 5100)]) =
     [200, 500, 1100] \<and>
   nondecreasing (laps (run initial
     [(Start, 0), (Lap, 1500), (Lap, 2700), (Pause, 3000), (Reset, 3000),
      (Lap, 3100), (ClearLaps, 3200), (Start, 4000), (Lap, 4200), (Lap, 4500), (Lap, 5100)]))"
proof -
  let ?kept = "[(Start, 0), (Lap, 1500), (Lap, 2700), (Pause, 3000), (Reset, 3000)]
               :: (action \<times> real) list"
  let ?again = "[(Start, 0), (Lap, 1500), (Lap, 2700), (Pause, 3000), (Reset, 3000),
                 (Lap, 3100), (ClearLaps, 3200), (Start, 4000), (Lap, 4200), (Lap, 4500),
                 (Lap, 5100)] :: (action \<times> real) list"
  note defs = initial_def start_def lap_def reset_def pause_def clearLaps_def
              currentElapsed_def Let_def
  have m1: "monotonic (map snd ?kept)" by simp
  have r1: "no_lap_on_kept False initial ?kept" by (simp add: defs)
  have l1: "laps (run initial ?kept) = [1500, 2700]" by (simp add: defs)
  have n1: "nondecreasing (laps (run initial ?kept))"
    using m1 r1 by (rule laps_nondecreasing)
  have m2: "monotonic (map snd ?again)" by simp
  have r2: "no_lap_on_kept False initial ?again" by (simp add: defs)
  have l2: "laps (run initial ?again) = [200, 500, 1100]" by (simp add: defs)
  have n2: "nondecreasing (laps (run initial ?again))"
    using m2 r2 by (rule laps_nondecreasing)
  from m1 r1 l1 n1 m2 r2 l2 n2 show ?thesis by (intro conjI)
qed

subsection \<open>Best and worst split\<close>

lemma scan_Suc: "scan sp (Suc n) = scan_step sp n (scan sp n)"
  by (simp add: scan_def)

lemma scan_one: "scan sp (Suc 0) = (0, 0)"
  by (simp add: scan_def scan_step_def)

lemma scan_best:
  "fst (scan sp (Suc n)) \<le> n \<and>
   (\<forall>j \<le> n. sp ! fst (scan sp (Suc n)) \<le> sp ! j) \<and>
   (\<forall>j < fst (scan sp (Suc n)). sp ! fst (scan sp (Suc n)) < sp ! j)"
proof (induction n)
  case 0
  show ?case by (simp add: scan_one)
next
  case (Suc n)
  let ?b = "fst (scan sp (Suc n))"
  show ?case
  proof (cases "sp ! Suc n < sp ! ?b")
    case True
    then have b: "fst (scan sp (Suc (Suc n))) = Suc n"
      by (simp add: scan_Suc [of sp "Suc n"] scan_step_def)
    have "\<forall>j \<le> Suc n. sp ! Suc n \<le> sp ! j"
    proof (intro allI impI)
      fix j assume "j \<le> Suc n"
      then consider "j = Suc n" | "j \<le> n" by linarith
      then show "sp ! Suc n \<le> sp ! j"
      proof cases
        case 1 then show ?thesis by simp
      next
        case 2
        with Suc.IH have "sp ! ?b \<le> sp ! j" by blast
        with True show ?thesis by simp
      qed
    qed
    moreover have "\<forall>j < Suc n. sp ! Suc n < sp ! j"
    proof (intro allI impI)
      fix j assume "j < Suc n"
      then have "j \<le> n" by simp
      with Suc.IH have "sp ! ?b \<le> sp ! j" by blast
      with True show "sp ! Suc n < sp ! j" by simp
    qed
    ultimately show ?thesis by (simp add: b)
  next
    case False
    then have b: "fst (scan sp (Suc (Suc n))) = ?b"
      by (simp add: scan_Suc [of sp "Suc n"] scan_step_def)
    have "\<forall>j \<le> Suc n. sp ! ?b \<le> sp ! j"
    proof (intro allI impI)
      fix j assume "j \<le> Suc n"
      then consider "j = Suc n" | "j \<le> n" by linarith
      then show "sp ! ?b \<le> sp ! j"
      proof cases
        case 1 with False show ?thesis by simp
      next
        case 2 with Suc.IH show ?thesis by blast
      qed
    qed
    with Suc.IH show ?thesis by (simp add: b)
  qed
qed

lemma scan_worst:
  "snd (scan sp (Suc n)) \<le> n \<and>
   (\<forall>j \<le> n. sp ! j \<le> sp ! snd (scan sp (Suc n))) \<and>
   (\<forall>j < snd (scan sp (Suc n)). sp ! j < sp ! snd (scan sp (Suc n)))"
proof (induction n)
  case 0
  show ?case by (simp add: scan_one)
next
  case (Suc n)
  let ?w = "snd (scan sp (Suc n))"
  show ?case
  proof (cases "sp ! Suc n > sp ! ?w")
    case True
    then have w: "snd (scan sp (Suc (Suc n))) = Suc n"
      by (simp add: scan_Suc [of sp "Suc n"] scan_step_def)
    have "\<forall>j \<le> Suc n. sp ! j \<le> sp ! Suc n"
    proof (intro allI impI)
      fix j assume "j \<le> Suc n"
      then consider "j = Suc n" | "j \<le> n" by linarith
      then show "sp ! j \<le> sp ! Suc n"
      proof cases
        case 1 then show ?thesis by simp
      next
        case 2
        with Suc.IH have "sp ! j \<le> sp ! ?w" by blast
        with True show ?thesis by simp
      qed
    qed
    moreover have "\<forall>j < Suc n. sp ! j < sp ! Suc n"
    proof (intro allI impI)
      fix j assume "j < Suc n"
      then have "j \<le> n" by simp
      with Suc.IH have "sp ! j \<le> sp ! ?w" by blast
      with True show "sp ! j < sp ! Suc n" by simp
    qed
    ultimately show ?thesis by (simp add: w)
  next
    case False
    then have w: "snd (scan sp (Suc (Suc n))) = ?w"
      by (simp add: scan_Suc [of sp "Suc n"] scan_step_def)
    have "\<forall>j \<le> Suc n. sp ! j \<le> sp ! ?w"
    proof (intro allI impI)
      fix j assume "j \<le> Suc n"
      then consider "j = Suc n" | "j \<le> n" by linarith
      then show "sp ! j \<le> sp ! ?w"
      proof cases
        case 1 with False show ?thesis by simp
      next
        case 2 with Suc.IH show ?thesis by blast
      qed
    qed
    with Suc.IH show ?thesis by (simp add: w)
  qed
qed

lemma length_splits: "length (splits list) = length list"
  by (simp add: splits_def)

lemma splits_nth: "i < length list \<Longrightarrow> splits list ! i = split_of list i"
  by (auto simp: splits_def split_of_def)

text \<open>
  Claim C7. With fewer than two laps both indices are \<open>-1\<close>. Otherwise \<open>best\<close> is
  the index of a minimal split and \<open>worst\<close> the index of a maximal split, where split
  \<open>0\<close> is \<open>laps[0]\<close> and split \<open>i\<close> is \<open>laps[i] - laps[i-1]\<close>; every earlier split
  is strictly above the best one and strictly below the worst one, so the earliest
  index wins a tie.
\<close>

theorem bestWorstIndices_spec:
  "(length list < 2 \<longrightarrow> bestWorstIndices list = \<lparr>best = - 1, worst = - 1\<rparr>) \<and>
   (2 \<le> length list \<longrightarrow>
      (\<exists>b w. bestWorstIndices list = \<lparr>best = int b, worst = int w\<rparr> \<and>
         b < length list \<and> w < length list \<and>
         (\<forall>j < length list. split_of list b \<le> split_of list j) \<and>
         (\<forall>j < b. split_of list b < split_of list j) \<and>
         (\<forall>j < length list. split_of list j \<le> split_of list w) \<and>
         (\<forall>j < w. split_of list j < split_of list w)))"
proof (intro conjI impI)
  assume "length list < 2"
  then show "bestWorstIndices list = \<lparr>best = - 1, worst = - 1\<rparr>"
    by (simp add: bestWorstIndices_def)
next
  assume len: "2 \<le> length list"
  then obtain n where n: "length list = Suc n" by (cases "length list") auto
  let ?sp = "splits list"
  let ?b = "fst (scan ?sp (Suc n))" and ?w = "snd (scan ?sp (Suc n))"
  from len n have r: "bestWorstIndices list = \<lparr>best = int ?b, worst = int ?w\<rparr>"
    by (simp add: bestWorstIndices_def length_splits Let_def)
  note B = scan_best [of ?sp n] and W = scan_worst [of ?sp n]
  from B n have bl: "?b < length list" by simp
  from W n have wl: "?w < length list" by simp
  have b1: "\<forall>j < length list. split_of list ?b \<le> split_of list j"
  proof (intro allI impI)
    fix j assume j: "j < length list"
    with n have "j \<le> n" by simp
    with B have "?sp ! ?b \<le> ?sp ! j" by blast
    with j bl show "split_of list ?b \<le> split_of list j" by (simp add: splits_nth)
  qed
  have b2: "\<forall>j < ?b. split_of list ?b < split_of list j"
  proof (intro allI impI)
    fix j assume j: "j < ?b"
    with B have "?sp ! ?b < ?sp ! j" by blast
    moreover from j bl have "j < length list" by simp
    ultimately show "split_of list ?b < split_of list j" using bl by (simp add: splits_nth)
  qed
  have w1: "\<forall>j < length list. split_of list j \<le> split_of list ?w"
  proof (intro allI impI)
    fix j assume j: "j < length list"
    with n have "j \<le> n" by simp
    with W have "?sp ! j \<le> ?sp ! ?w" by blast
    with j wl show "split_of list j \<le> split_of list ?w" by (simp add: splits_nth)
  qed
  have w2: "\<forall>j < ?w. split_of list j < split_of list ?w"
  proof (intro allI impI)
    fix j assume j: "j < ?w"
    with W have "?sp ! j < ?sp ! ?w" by blast
    moreover from j wl have "j < length list" by simp
    ultimately show "split_of list j < split_of list ?w" using wl by (simp add: splits_nth)
  qed
  from r bl wl b1 b2 w1 w2
  show "\<exists>b w. bestWorstIndices list = \<lparr>best = int b, worst = int w\<rparr> \<and>
         b < length list \<and> w < length list \<and>
         (\<forall>j < length list. split_of list b \<le> split_of list j) \<and>
         (\<forall>j < b. split_of list b < split_of list j) \<and>
         (\<forall>j < length list. split_of list j \<le> split_of list w) \<and>
         (\<forall>j < w. split_of list j < split_of list w)"
    by blast
qed

theorem bestWorstIndices_spec_witness:
  "bestWorstIndices [1500] = \<lparr>best = - 1, worst = - 1\<rparr> \<and>
   bestWorstIndices [1500, 2700, 4200, 5400] = \<lparr>best = 1, worst = 0\<rparr>"
proof -
  let ?S = "[1500] :: real list"
  let ?L = "[1500, 2700, 4200, 5400] :: real list"
  have "length ?S < 2" by simp
  with bestWorstIndices_spec [of ?S]
  have short: "bestWorstIndices ?S = \<lparr>best = - 1, worst = - 1\<rparr>" by blast
  have len: "2 \<le> length ?L" and n: "length ?L = 4" by simp_all
  from bestWorstIndices_spec [of ?L] len obtain b w where
    r: "bestWorstIndices ?L = \<lparr>best = int b, worst = int w\<rparr>" and
    bl: "b < length ?L" and wl: "w < length ?L" and
    bmin: "\<forall>j < length ?L. split_of ?L b \<le> split_of ?L j" and
    bfirst: "\<forall>j < b. split_of ?L b < split_of ?L j" and
    wmax: "\<forall>j < length ?L. split_of ?L j \<le> split_of ?L w" and
    wfirst: "\<forall>j < w. split_of ?L j < split_of ?L w"
    by blast
  have sp: "split_of ?L 0 = 1500" "split_of ?L 1 = 1200"
           "split_of ?L 2 = 1500" "split_of ?L 3 = 1200"
    by (simp_all add: split_of_def)
  from bl consider "b = 0" | "b = 1" | "b = 2" | "b = 3" by (simp add: n) linarith
  then have b: "b = 1"
  proof cases
    case 1
    with bmin [rule_format, of 1] sp show ?thesis by simp
  next
    case 2
    then show ?thesis .
  next
    case 3
    with bmin [rule_format, of 1] sp show ?thesis by simp
  next
    case 4
    with bfirst [rule_format, of 1] sp show ?thesis by simp
  qed
  from wl consider "w = 0" | "w = 1" | "w = 2" | "w = 3" by (simp add: n) linarith
  then have w: "w = 0"
  proof cases
    case 1
    then show ?thesis .
  next
    case 2
    with wmax [rule_format, of 0] sp show ?thesis by simp
  next
    case 3
    with wfirst [rule_format, of 0] sp show ?thesis by simp
  next
    case 4
    with wmax [rule_format, of 0] sp show ?thesis by simp
  qed
  from short r b w show ?thesis by simp
qed

subsection \<open>Persistence\<close>

lemma loadState_try_object:
  "parse raw = Some (JObj kvs) \<Longrightarrow>
   loadState_try parse raw =
     Inr \<lparr>jstartTime = js_or (case map_of kvs ''startTime'' of None \<Rightarrow> JUndefined | Some x \<Rightarrow> x) (JNum 0),
          jelapsed = js_or (case map_of kvs ''elapsed'' of None \<Rightarrow> JUndefined | Some x \<Rightarrow> x) (JNum 0),
          jrunning = truthy (case map_of kvs ''running'' of None \<Rightarrow> JUndefined | Some x \<Rightarrow> x),
          jlaps = (case (case map_of kvs ''laps'' of None \<Rightarrow> JUndefined | Some x \<Rightarrow> x) of
                     JArr xs \<Rightarrow> xs | _ \<Rightarrow> [])\<rparr>"
  by (simp add: loadState_try_def)

lemma loadState_total: "\<exists>v'. loadState parse store v = Inr v'"
  by (simp add: loadState_def split: option.split sum.split)

text \<open>
  Claim C8. Whatever the slot holds, \<open>loadState\<close> returns normally. At start-up,
  where the variables still have their initial values (\<open>0\<close>, \<open>0\<close>, \<open>false\<close>, \<open>[]\<close>),
  an absent slot and a text that \<open>JSON.parse\<close> rejects leave exactly these values;
  and when the text is an object, every field that the object lacks gets its default
  \<open>0\<close>, \<open>false\<close> or \<open>[]\<close>.
\<close>

theorem loadState_fails_soft:
  "(\<exists>v'. loadState parse store v = Inr v') \<and>
   js_vars initial = \<lparr>jstartTime = JNum 0, jelapsed = JNum 0, jrunning = False, jlaps = []\<rparr> \<and>
   (store STORAGE_KEY = None \<longrightarrow>
      loadState parse store (js_vars initial) = Inr (js_vars initial)) \<and>
   (store STORAGE_KEY = Some raw \<and> parse raw = None \<longrightarrow>
      loadState parse store (js_vars initial) = Inr (js_vars initial)) \<and>
   (store STORAGE_KEY = Some raw \<and> raw \<noteq> [] \<and> parse raw = Some (JObj kvs) \<longrightarrow>
      (\<exists>v'. loadState parse store v = Inr v' \<and>
         (map_of kvs ''startTime'' = None \<longrightarrow> jstartTime v' = JNum 0) \<and>
         (map_of kvs ''elapsed'' = None \<longrightarrow> jelapsed v' = JNum 0) \<and>
         (map_of kvs ''running'' = None \<longrightarrow> jrunning v' = False) \<and>
         (map_of kvs ''laps'' = None \<longrightarrow> jlaps v' = [])))"
proof (intro conjI impI)
  show "\<exists>v'. loadState parse store v = Inr v'" by (rule loadState_total)
next
  show "js_vars initial = \<lparr>jstartTime = JNum 0, jelapsed = JNum 0, jrunning = False, jlaps = []\<rparr>"
    by (simp add: js_vars_def initial_def)
next
  assume "store STORAGE_KEY = None"
  then show "loadState parse store (js_vars initial) = Inr (js_vars initial)"
    by (simp add: loadState_def)
next
  assume "store STORAGE_KEY = Some raw \<and> parse raw = None"
  then show "loadState parse store (js_vars initial) = Inr (js_vars initial)"
    by (simp add: loadState_def loadState_try_def)
next
  assume a: "store STORAGE_KEY = Some raw \<and> raw \<noteq> [] \<and> parse raw = Some (JObj kvs)"
  then have "parse raw = Some (JObj kvs)" by simp
  with loadState_try_object [of parse raw kvs]
  have t: "loadState_try parse raw =
     Inr \<lparr>jstartTime = js_or (case map_of kvs ''startTime'' of None \<Rightarrow> JUndefined | Some x \<Rightarrow> x) (JNum 0),
          jelapsed = js_or (case map_of kvs ''elapsed'' of None \<Rightarrow> JUndefined | Some x \<Rightarrow> x) (JNum 0),
          jrunning = truthy (case map_of kvs ''running'' of None \<Rightarrow> JUndefined | Some x \<Rightarrow> x),
          jlaps = (case (case map_of kvs ''laps'' of None \<Rightarrow> JUndefined | Some x \<Rightarrow> x) of
                     JArr xs \<Rightarrow> xs | _ \<Rightarrow> [])\<rparr>"
    by simp
  from a show "\<exists>v'. loadState parse store v = Inr v' \<and>
         (map_of kvs ''startTime'' = None \<longrightarrow> jstartTime v' = JNum 0) \<and>
         (map_of kvs ''elapsed'' = None \<longrightarrow> jelapsed v' = JNum 0) \<and>
         (map_of kvs ''running'' = None \<longrightarrow> jrunning v' = False) \<and>
         (map_of kvs ''laps'' = None \<longrightarrow> jlaps v' = [])"
    by (simp add: loadState_def t js_or_def)
qed

theorem loadState_fails_soft_witness:
  "loadState (\<lambda>r. if r = ''{}'' then Some (JObj []) else None) Map.empty (js_vars initial) =
     Inr (js_vars initial) \<and>
   loadState (\<lambda>r. if r = ''{}'' then Some (JObj []) else None) [STORAGE_KEY \<mapsto> ''{oops'']
       (js_vars initial) =
     Inr (js_vars initial) \<and>
   loadState (\<lambda>r. if r = ''{}'' then Some (JObj []) else None) [STORAGE_KEY \<mapsto> ''{}'']
       (js_vars stale_example) =
     Inr \<lparr>jstartTime = JNum 0, jelapsed = JNum 0, jrunning = False, jlaps = []\<rparr>"
proof -
  let ?parse = "\<lambda>r. if r = ''{}'' then Some (JObj []) else None"
  let ?absent = "Map.empty :: string \<rightharpoonup> string"
  let ?broken = "[STORAGE_KEY \<mapsto> ''{oops'']"
  let ?bare = "[STORAGE_KEY \<mapsto> ''{}'']"
  let ?none = "[] :: (string \<times> jsval) list"
  have a: "loadState ?parse ?absent (js_vars initial) = Inr (js_vars initial)"
  proof -
    have h: "?absent STORAGE_KEY = None" by simp
    from loadState_fails_soft [of ?parse ?absent "js_vars initial" "[]" ?none]
    have "?absent STORAGE_KEY = None \<longrightarrow>
            loadState ?parse ?absent (js_vars initial) = Inr (js_vars initial)"
      by (elim conjE)
    with h show ?thesis by (rule rev_mp)
  qed
  have b: "loadState ?parse ?broken (js_vars initial) = Inr (js_vars initial)"
  proof -
    have h: "?broken STORAGE_KEY = Some ''{oops'' \<and> ?parse ''{oops'' = None" by simp
    from loadState_fails_soft [of ?parse ?broken "js_vars initial" "''{oops''" ?none]
    have "?broken STORAGE_KEY = Some ''{oops'' \<and> ?parse ''{oops'' = None \<longrightarrow>
            loadState ?parse ?broken (js_vars initial) = Inr (js_vars initial)"
      by (elim conjE)
    with h show ?thesis by (rule rev_mp)
  qed
  have c: "\<exists>v'. loadState ?parse ?bare (js_vars stale_example) = Inr v' \<and>
         (map_of ?none ''startTime'' = None \<longrightarrow> jstartTime v' = JNum 0) \<and>
         (map_of ?none ''elapsed'' = None \<longrightarrow> jelapsed v' = JNum 0) \<and>
         (map_of ?none ''running'' = None \<longrightarrow> jrunning v' = False) \<and>
         (map_of ?none ''laps'' = None \<longrightarrow> jlaps v' = [])"
  proof -
    have h: "?bare STORAGE_KEY = Some ''{}'' \<and> ''{}'' \<noteq> [] \<and> ?parse ''{}'' = Some (JObj ?none)"
      by simp
    from loadState_fails_soft [of ?parse ?bare "js_vars stale_example" "''{}''" ?none]
    have "?bare STORAGE_KEY = Some ''{}'' \<and> ''{}'' \<noteq> [] \<and> ?parse ''{}'' = Some (JObj ?none) \<longrightarrow>
         (\<exists>v'. loadState ?parse ?bare (js_vars stale_example) = Inr v' \<and>
         (map_of ?none ''startTime'' = None \<longrightarrow> jstartTime v' = JNum 0) \<and>
         (map_of ?none ''elapsed'' = None \<longrightarrow> jelapsed v' = JNum 0) \<and>
         (map_of ?none ''running'' = None \<longrightarrow> jrunning v' = False) \<and>
         (map_of ?none ''laps'' = None \<longrightarrow> jlaps v' = []))"
      by (elim conjE)
    with h show ?thesis by (rule rev_mp)
  qed
  then obtain v' where l: "loadState ?parse ?bare (js_vars stale_example) = Inr v'"
    and d: "jstartTime v' = JNum 0" "jelapsed v' = JNum 0" "jrunning v' = False" "jlaps v' = []"
    by (elim exE conjE) simp
  from d have "v' = \<lparr>jstartTime = JNum 0, jelapsed = JNum 0, jrunning = False, jlaps = []\<rparr>"
    by simp
  then have "Inr v' = (Inr \<lparr>jstartTime = JNum 0, jelapsed = JNum 0, jrunning = False, jlaps = []\<rparr>
      :: js_error + jvars)"
    by (rule arg_cong)
  with l have c': "loadState ?parse ?bare (js_vars stale_example) =
      Inr \<lparr>jstartTime = JNum 0, jelapsed = JNum 0, jrunning = False, jlaps = []\<rparr>"
    by (rule trans)
  from a b c' show ?thesis by (intro conjI)
qed

text \<open>
  Claim C9. For variables holding numbers, a boolean and a list of numbers,
  \<open>loadState\<close> after \<open>saveState\<close> gives the same four values, provided the platform
  reads back the text it wrote for the snapshot (\<open>JSON.parse\<close> inverts
  \<open>JSON.stringify\<close> on it) and that text is not empty.
\<close>

theorem save_load_roundtrip:
  assumes "parse (stringify (snapshot (js_vars s))) = Some (snapshot (js_vars s))"
    and "stringify (snapshot (js_vars s)) \<noteq> []"
  shows "loadState parse (saveState stringify (js_vars s) store) v = Inr (js_vars s)"
proof -
  have o: "parse (stringify (snapshot (js_vars s))) =
        Some (JObj [(''startTime'', JNum (startTime s)), (''elapsed'', JNum (elapsed s)),
                    (''running'', JBool (running s)), (''laps'', JArr (map JNum (laps s)))])"
    using assms(1) by (simp add: snapshot_def js_vars_def)
  have "loadState_try parse (stringify (snapshot (js_vars s))) = Inr (js_vars s)"
    using loadState_try_object [of parse "stringify (snapshot (js_vars s))", OF o]
    by (simp add: js_or_def js_vars_def)
  with assms(2) show ?thesis
    by (simp add: loadState_def saveState_def)
qed


theorem save_load_roundtrip_witness:
  \<open>loadState
     (\<lambda>r. if r = ''{"startTime":1000,"elapsed":5000,"running":true,"laps":[1500,2700]}''
          then Some (JObj [(''startTime'', JNum 1000), (''elapsed'', JNum 5000),
                           (''running'', JBool True), (''laps'', JArr [JNum 1500, JNum 2700])])
          else None)
     (saveState
        (\<lambda>v. if v = JObj [(''startTime'', JNum 1000), (''elapsed'', JNum 5000),
                          (''running'', JBool True), (''laps'', JArr [JNum 1500, JNum 2700])]
             then ''{"startTime":1000,"elapsed":5000,"running":true,"laps":[1500,2700]}''
             else ''null'')
        (js_vars \<lparr>startTime = 1000, elapsed = 5000, running = True, laps = [1500, 2700]\<rparr>)
        Map.empty)
     (js_vars initial) =
   Inr (js_vars \<lparr>startTime = 1000, elapsed = 5000, running = True, laps = [1500, 2700]\<rparr>)\<close>
proof -
  let ?s = "\<lparr>startTime = 1000, elapsed = 5000, running = True, laps = [1500, 2700]\<rparr>"
  let ?doc = "JObj [(''startTime'', JNum 1000), (''elapsed'', JNum 5000),
                    (''running'', JBool True), (''laps'', JArr [JNum 1500, JNum 2700])]"
  let ?text = \<open>''{"startTime":1000,"elapsed":5000,"running":true,"laps":[1500,2700]}''\<close>
  let ?parse = "\<lambda>r. if r = ?text then Some ?doc else None"
  let ?stringify = "\<lambda>v. if v = ?doc then ?text else ''null''"
  have d: "snapshot (js_vars ?s) = ?doc"
    by (simp add: snapshot_def js_vars_def)
  have p: "?parse (?stringify (snapshot (js_vars ?s))) = Some (snapshot (js_vars ?s))"
    by (simp add: d)
  have n: "?stringify (snapshot (js_vars ?s)) \<noteq> []"
    by (simp add: d)
  show ?thesis
    by (rule save_load_roundtrip [of ?parse ?stringify ?s Map.empty "js_vars initial", OF p n])
qed

end
